theory Spec2Isabelle
  imports Main "HOL-Library.Sublist"
begin

section \<open>Strings: the functions of Go's \<open>strings\<close> package that reflect.go calls\<close>

text \<open>
  A Go string is a sequence of bytes; it is modelled as a \<open>string\<close> (a list of 8-bit
  characters), so a character outside ASCII is the bytes of its UTF-8 encoding.

  \<open>strings.TrimSpace\<close> removes from both ends of a string the runes for which
  \<open>unicode.IsSpace\<close> holds: tab, line feed, vertical tab, form feed, carriage return, space,
  U+0085, U+00A0, U+1680, U+2000 to U+200A, U+2028, U+2029, U+202F, U+205F and U+3000.
  \<open>spaceRunes\<close> lists them, each as the bytes of its UTF-8 encoding. Go's decoder accepts
  only the shortest encoding of a rune and reads any byte it cannot decode as U+FFFD, one
  byte wide, which is not white space; so the first rune of a string is white space
  exactly when the string starts with one of these byte sequences, and the last rune is
  white space exactly when the string ends with one of them.
\<close>

definition spaceRunes :: "string list" where
  "spaceRunes =
     [[CHR 0x09], [CHR 0x0A], [CHR 0x0B], [CHR 0x0C], [CHR 0x0D], [CHR 0x20],
      [CHR 0xC2, CHR 0x85], [CHR 0xC2, CHR 0xA0],
      [CHR 0xE1, CHR 0x9A, CHR 0x80],
      [CHR 0xE2, CHR 0x80, CHR 0x80], [CHR 0xE2, CHR 0x80, CHR 0x81],
      [CHR 0xE2, CHR 0x80, CHR 0x82], [CHR 0xE2, CHR 0x80, CHR 0x83],
      [CHR 0xE2, CHR 0x80, CHR 0x84], [CHR 0xE2, CHR 0x80, CHR 0x85],
      [CHR 0xE2, CHR 0x80, CHR 0x86], [CHR 0xE2, CHR 0x80, CHR 0x87],
      [CHR 0xE2, CHR 0x80, CHR 0x88], [CHR 0xE2, CHR 0x80, CHR 0x89],
      [CHR 0xE2, CHR 0x80, CHR 0x8A],
      [CHR 0xE2, CHR 0x80, CHR 0xA8], [CHR 0xE2, CHR 0x80, CHR 0xA9],
      [CHR 0xE2, CHR 0x80, CHR 0xAF],
      [CHR 0xE2, CHR 0x81, CHR 0x9F],
      [CHR 0xE3, CHR 0x80, CHR 0x80]]"

text \<open>
  The width in bytes of the rune of \<open>runes\<close> that \<open>s\<close> starts with, and 0 when it starts
  with none of them.
\<close>

definition spaceWidth :: "string list \<Rightarrow> string \<Rightarrow> nat" where
  "spaceWidth runes s =
     (case find (\<lambda>w. prefix w s) runes of None \<Rightarrow> 0 | Some w \<Rightarrow> length w)"

lemma spaceWidth_le: "spaceWidth runes s \<le> length s"
  by (auto simp: spaceWidth_def prefix_length_le split: option.splits
           dest!: find_Some_iff [THEN iffD1])

text \<open>
  \<open>strings.TrimLeftFunc(s, unicode.IsSpace)\<close>: the runes at the start of \<open>s\<close> are dropped
  one after the other, up to the first that is not white space.
\<close>

function trimLeading :: "string list \<Rightarrow> string \<Rightarrow> string" where
  "trimLeading runes s =
     (if spaceWidth runes s = 0 then s
      else trimLeading runes (drop (spaceWidth runes s) s))"
  by pat_completeness auto
termination
proof (relation "measure (\<lambda>(runes, s). length s)")
  show "wf (measure (\<lambda>(runes, s). length s))" by simp
next
  fix runes :: "string list" and s :: string
  assume "spaceWidth runes s \<noteq> 0"
  with spaceWidth_le [of runes s]
  show "((runes, drop (spaceWidth runes s) s), (runes, s)) \<in> measure (\<lambda>(runes, s). length s)"
    by simp
qed

declare trimLeading.simps [simp del]

text \<open>
  \<open>strings.TrimSpace\<close>: the white space at the start is dropped, then the white space at
  the end. The end is trimmed on the reversed string, against the reversed encodings.
\<close>

definition TrimSpace :: "string \<Rightarrow> string" where
  "TrimSpace s = rev (trimLeading (map rev spaceRunes) (rev (trimLeading spaceRunes s)))"

lemmas TrimSpace_eval = TrimSpace_def trimLeading.simps spaceWidth_def spaceRunes_def

text \<open>
  \<open>strings.Split(s, sep)\<close> for a separator of one byte (the only separators of reflect.go
  are \<open>";"\<close> and \<open>"="\<close>): the pieces of \<open>s\<close> between the separators, in order. The result
  is never empty: a string without the separator gives the one piece \<open>s\<close>. The scan
  carries the piece read since the last separator.
\<close>

fun Split_from :: "string \<Rightarrow> string \<Rightarrow> char \<Rightarrow> string list" where
  "Split_from piece [] sep = [piece]"
| "Split_from piece (c # s) sep =
     (if c = sep then piece # Split_from [] s sep else Split_from (piece @ [c]) s sep)"

definition Split :: "string \<Rightarrow> char \<Rightarrow> string list" where
  "Split s sep = Split_from [] s sep"

text \<open>\<open>strings.Join(elems, ".")\<close>.\<close>

fun Join :: "string list \<Rightarrow> string \<Rightarrow> string" where
  "Join [] sep = []"
| "Join [x] sep = x"
| "Join (x # y # ys) sep = x @ sep @ Join (y # ys) sep"

section \<open>The annotation parser: \<open>parseTags\<close> (reflect.go, lines 118-137)\<close>

text \<open>
  A Go \<open>map[string]string\<close> is a partial map; the \<open>nil\<close> map that \<open>parseTags\<close> returns for
  an ignored component is \<open>None\<close>. Reading a key of the \<open>nil\<close> map finds nothing, as in Go.
\<close>

type_synonym tagmap = "(string \<rightharpoonup> string) option"

definition mapGet :: "tagmap \<Rightarrow> string \<Rightarrow> string option" where
  "mapGet tags k = (case tags of None \<Rightarrow> None | Some m \<Rightarrow> m k)"

text \<open>
  The loop \<open>for _, tag := range split\<close>, with the map \<open>ret\<close> built so far. A segment without
  \<open>=\<close> splits into one piece: the piece \<open>-\<close> returns \<open>(nil, true)\<close> at once, any other is
  skipped. Otherwise the first two pieces, trimmed, are the key and the value.
\<close>

fun parseTags_loop :: "string list \<Rightarrow> (string \<rightharpoonup> string) \<Rightarrow> tagmap \<times> bool" where
  "parseTags_loop [] ret = (Some ret, False)"
| "parseTags_loop (tag # split) ret =
     (let kv = Split tag (CHR ''='') in
      if length kv < 2 then
        (if kv ! 0 = ''-'' then (None, True) else parseTags_loop split ret)
      else parseTags_loop split (ret(TrimSpace (kv ! 0) \<mapsto> TrimSpace (kv ! 1))))"

definition parseTags :: "string \<Rightarrow> tagmap \<times> bool" where
  "parseTags tags0 =
     (let tags = TrimSpace tags0 in
      if length tags = 0 then (Some Map.empty, False)
      else parseTags_loop (Split tags (CHR '';'')) Map.empty)"

section \<open>Go types and values, as package \<open>reflect\<close> shows them\<close>

text \<open>
  The types \<open>fields\<close> can tell apart: three scalar types, the interface type, pointers and
  structs. A struct type is the list of its declared fields, each a \<open>reflect.StructField\<close>:
  its name, its package path (empty exactly for an exported field), its type, its
  annotation and whether it is embedded (anonymous). \<open>sfTag\<close> holds what
  \<open>tf.Tag.Get("form")\<close> returns, the value of the \<open>form\<close> key of the struct tag. Types are
  finite trees: a type that contains itself through a pointer is outside the model.
\<close>

datatype gtype =
    TString
  | TInt
  | TBool
  | TInterface
  | TPointer gtype
  | TStruct "sfield list"
and sfield =
    StructField (sfName: string) (sfPkgPath: string) (sfType: gtype) (sfTag: string)
      (sfAnonymous: bool)

datatype kind = KInvalid | KString | KInt | KBool | KInterface | KPointer | KStruct

text \<open>
  A \<open>reflect.Value\<close>. \<open>Invalid\<close> is the zero Value, which is also what
  \<open>reflect.ValueOf(nil)\<close> returns: as an argument of \<open>fields\<close> it is the \<open>nil\<close> interface. A
  nil pointer carries the type it points to; a struct value carries its declared fields
  and its field values, in declaration order.
\<close>

datatype gvalue =
    Invalid
  | VString string
  | VInt int
  | VBool bool
  | VNilInterface
  | VInterface gvalue
  | VNilPointer gtype
  | VPointer gvalue
  | VStruct "sfield list" "gvalue list"

text \<open>The panics of \<open>fields\<close> and of the reflect calls it makes.\<close>

datatype panic =
    NotAStruct             \<comment> \<open>\<open>panic("invalid value; only structs are supported")\<close>\<close>
  | TypeOfZeroValue        \<comment> \<open>\<open>reflect: call of reflect.Value.Type on zero Value\<close>\<close>
  | NilEmbeddedPointer     \<comment> \<open>\<open>reflect: indirection through nil pointer to embedded struct\<close>\<close>
  | FieldOfNonStruct       \<comment> \<open>\<open>reflect: call of reflect.Value.Field on\<close> a value that is no struct\<close>
  | FieldIndexOutOfRange   \<comment> \<open>\<open>reflect: Field index out of range\<close>\<close>
  | InterfaceOfZeroValue   \<comment> \<open>\<open>reflect: call of reflect.Value.Interface on zero Value\<close>\<close>

fun KindT :: "gtype \<Rightarrow> kind" where
  "KindT TString = KString"
| "KindT TInt = KInt"
| "KindT TBool = KBool"
| "KindT TInterface = KInterface"
| "KindT (TPointer t) = KPointer"
| "KindT (TStruct fs) = KStruct"

text \<open>\<open>Type.Elem()\<close>; reflect.go calls it on pointer types only.\<close>

fun ElemT :: "gtype \<Rightarrow> gtype" where
  "ElemT (TPointer t) = t"
| "ElemT t = t"

fun Kind :: "gvalue \<Rightarrow> kind" where
  "Kind Invalid = KInvalid"
| "Kind (VString s) = KString"
| "Kind (VInt i) = KInt"
| "Kind (VBool b) = KBool"
| "Kind VNilInterface = KInterface"
| "Kind (VInterface x) = KInterface"
| "Kind (VNilPointer t) = KPointer"
| "Kind (VPointer x) = KPointer"
| "Kind (VStruct ds vs) = KStruct"

text \<open>\<open>Value.Type()\<close>, which panics on the zero Value (\<open>None\<close>).\<close>

fun TypeOf :: "gvalue \<Rightarrow> gtype option" where
  "TypeOf Invalid = None"
| "TypeOf (VString s) = Some TString"
| "TypeOf (VInt i) = Some TInt"
| "TypeOf (VBool b) = Some TBool"
| "TypeOf VNilInterface = Some TInterface"
| "TypeOf (VInterface x) = Some TInterface"
| "TypeOf (VNilPointer t) = Some (TPointer t)"
| "TypeOf (VPointer x) = (case TypeOf x of None \<Rightarrow> None | Some t \<Rightarrow> Some (TPointer t))"
| "TypeOf (VStruct ds vs) = Some (TStruct ds)"

text \<open>\<open>Value.IsNil()\<close>; reflect.go calls it on values of pointer type only.\<close>

fun IsNil :: "gvalue \<Rightarrow> bool" where
  "IsNil (VNilPointer t) = True"
| "IsNil VNilInterface = True"
| "IsNil v = False"

lemma size_sfType [termination_simp]: "size (sfType f) \<le> size f"
  by (cases f) simp

text \<open>\<open>reflect.Zero(t)\<close>: the zero value of a type.\<close>

fun Zero :: "gtype \<Rightarrow> gvalue" where
  "Zero TString = VString []"
| "Zero TInt = VInt 0"
| "Zero TBool = VBool False"
| "Zero TInterface = VNilInterface"
| "Zero (TPointer t) = VNilPointer t"
| "Zero (TStruct fs) = VStruct fs (map (\<lambda>f. Zero (sfType f)) fs)"

text \<open>
  \<open>Value.Elem()\<close> of a pointer or an interface: what it points to or contains, and the
  zero Value when it is nil.
\<close>

fun Elem :: "gvalue \<Rightarrow> gvalue" where
  "Elem (VPointer x) = x"
| "Elem (VInterface x) = x"
| "Elem v = Invalid"

text \<open>\<open>reflect.Indirect(v)\<close>: the target of a pointer, any other value as it is.\<close>

fun Indirect :: "gvalue \<Rightarrow> gvalue" where
  "Indirect (VPointer x) = x"
| "Indirect (VNilPointer t) = Invalid"
| "Indirect v = v"

text \<open>
  \<open>Value.Interface()\<close>: the value as an \<open>interface{}\<close>. A value of interface kind gives
  what it contains (\<open>nil\<close> when it is nil); the zero Value panics.
\<close>

fun Interface :: "gvalue \<Rightarrow> panic + gvalue" where
  "Interface Invalid = Inl InterfaceOfZeroValue"
| "Interface VNilInterface = Inr Invalid"
| "Interface (VInterface x) = Inr x"
| "Interface v = Inr v"

text \<open>\<open>Value.Field(i)\<close>: the i-th field of a struct value.\<close>

fun Field :: "gvalue \<Rightarrow> nat \<Rightarrow> panic + gvalue" where
  "Field (VStruct ds vs) i = (if i < length vs then Inr (vs ! i) else Inl FieldIndexOutOfRange)"
| "Field v i = Inl FieldOfNonStruct"

text \<open>
  \<open>Value.FieldByIndex(index)\<close>. After the first step, a value that is a pointer to a
  struct is dereferenced before its field is taken, and the call panics when that pointer
  is nil (package reflect: "It panics if evaluation requires stepping through a nil
  pointer or a field that is not a struct").
\<close>

definition throughPointer :: "gvalue \<Rightarrow> panic + gvalue" where
  "throughPointer v =
     (case TypeOf v of
        None \<Rightarrow> Inr v
      | Some t \<Rightarrow>
          if Kind v = KPointer \<and> KindT (ElemT t) = KStruct
          then (if IsNil v then Inl NilEmbeddedPointer else Inr (Elem v))
          else Inr v)"

fun FieldByIndex_step :: "gvalue \<Rightarrow> nat list \<Rightarrow> panic + gvalue" where
  "FieldByIndex_step v [] = Inr v"
| "FieldByIndex_step v (x # index) =
     (case throughPointer v of
        Inl p \<Rightarrow> Inl p
      | Inr s \<Rightarrow>
          (case Field s x of Inl p \<Rightarrow> Inl p | Inr w \<Rightarrow> FieldByIndex_step w index))"

fun FieldByIndex :: "gvalue \<Rightarrow> nat list \<Rightarrow> panic + gvalue" where
  "FieldByIndex v [] = (if Kind v = KStruct then Inr v else Inl FieldOfNonStruct)"
| "FieldByIndex v (x # index) =
     (case Field v x of Inl p \<Rightarrow> Inl p | Inr w \<Rightarrow> FieldByIndex_step w index)"

text \<open>\<open>StructField.IsExported()\<close>: the package path is empty.\<close>

definition IsExported :: "sfield \<Rightarrow> bool" where
  "IsExported f = (sfPkgPath f = [])"

text \<open>
  \<open>reflect.VisibleFields(t)\<close>. The walk lists the fields of a struct type in declaration
  order, each with its index sequence, and after an embedded field of struct type (or of
  pointer to struct type) the fields of that struct, one level deeper. Of the listed
  fields, Go's visibility rule keeps a field exactly when every other listed field of the
  same name lies strictly deeper: a shallower field hides a deeper one, and two fields of
  one name at one depth hide each other.
\<close>

lemma size_ElemT: "size (ElemT t) \<le> size t"
  by (cases t) simp_all

lemma enumerate_snd_mem: "(i, f) \<in> set (enumerate n fs) \<Longrightarrow> f \<in> set fs"
  by (auto simp: in_set_enumerate_eq)

lemma size_sfield_mem: "f \<in> set fs \<Longrightarrow> size (sfType f) < Suc (size_list size fs)"
proof -
  assume "f \<in> set fs"
  then have "size f \<le> size_list size fs" by (simp add: size_list_estimation')
  moreover have "size (sfType f) \<le> size f" by (rule size_sfType)
  ultimately show ?thesis by simp
qed

function walk :: "gtype \<Rightarrow> nat list \<Rightarrow> (nat list \<times> sfield) list" where
  "walk (TStruct fs) index =
     concat (map (\<lambda>(i, f).
        (index @ [i], f) #
        (if sfAnonymous f
         then walk (if KindT (sfType f) = KPointer then ElemT (sfType f) else sfType f)
                (index @ [i])
         else []))
       (enumerate 0 fs))"
| "walk TString index = []"
| "walk TInt index = []"
| "walk TBool index = []"
| "walk TInterface index = []"
| "walk (TPointer t) index = []"
  by pat_completeness auto
termination
proof (relation "measure (\<lambda>(t, index). size t)", goal_cases)
  case 1
  show ?case by simp
next
  case (2 fs index x i f)
  then have mem: "f \<in> set fs" by (auto dest: enumerate_snd_mem)
  have "size (ElemT (sfType f)) \<le> size (sfType f)" by (rule size_ElemT)
  with size_sfield_mem [OF mem] show ?case by simp
qed

definition VisibleFields :: "gtype \<Rightarrow> (nat list \<times> sfield) list" where
  "VisibleFields t =
     filter (\<lambda>(index, f).
        list_all (\<lambda>(index', f').
           if sfName f' = sfName f \<and> index' \<noteq> index then length index < length index'
           else True)
         (walk t []))
       (walk t [])"

section \<open>The descriptor and the descriptor builder (reflect.go, lines 87-116 and 139-149)\<close>

text \<open>
  The struct \<open>field\<close> of reflect.go, attribute by attribute. \<open>Value\<close> is an \<open>interface{}\<close>
  (\<open>Invalid\<close> is \<open>nil\<close>); \<open>Footer\<close> is a \<open>template.HTML\<close>, a string type. The struct has
  no other attribute.
\<close>

record field =
  Name :: string
  Label :: string
  Placeholder :: string
  Type :: string
  ID :: string
  ReadOnly :: bool
  Value :: gvalue
  Footer :: string
  Class :: string

text \<open>\<open>applyTags\<close>: the eight lookups \<open>if v, ok := tags[key]; ok\<close>, in the order of the source.\<close>

definition applyTags :: "field \<Rightarrow> tagmap \<Rightarrow> field" where
  "applyTags f0 tags =
     (let f1 = (case mapGet tags ''name'' of Some v \<Rightarrow> f0\<lparr>Name := v\<rparr> | None \<Rightarrow> f0);
          f2 = (case mapGet tags ''label'' of
                  Some v \<Rightarrow> f1\<lparr>Label := v, Placeholder := v\<rparr> | None \<Rightarrow> f1);
          f3 = (case mapGet tags ''placeholder'' of
                  Some v \<Rightarrow> f2\<lparr>Placeholder := v\<rparr> | None \<Rightarrow> f2);
          f4 = (case mapGet tags ''type'' of Some v \<Rightarrow> f3\<lparr>Type := v\<rparr> | None \<Rightarrow> f3);
          f5 = (case mapGet tags ''id'' of Some v \<Rightarrow> f4\<lparr>ID := v\<rparr> | None \<Rightarrow> f4);
          f6 = (case mapGet tags ''footer'' of Some v \<Rightarrow> f5\<lparr>Footer := v\<rparr> | None \<Rightarrow> f5);
          f7 = (case mapGet tags ''class'' of Some v \<Rightarrow> f6\<lparr>Class := v\<rparr> | None \<Rightarrow> f6);
          f8 = (case mapGet tags ''readonly'' of
                  Some v \<Rightarrow> f7\<lparr>ReadOnly := (v = ''true'')\<rparr> | None \<Rightarrow> f7)
      in f8)"

section \<open>The value normalizer: \<open>valueOf\<close> (reflect.go, lines 15-28)\<close>

text \<open>The loop \<open>for rv.Kind() == Pointer || rv.Kind() == Interface { rv = rv.Elem() }\<close>.\<close>

function valueOf_loop :: "gvalue \<Rightarrow> gvalue" where
  "valueOf_loop rv =
     (if Kind rv = KPointer \<or> Kind rv = KInterface then valueOf_loop (Elem rv) else rv)"
  by pat_completeness auto
termination
  by (relation "measure (\<lambda>rv. size rv + (if Kind rv = KPointer \<or> Kind rv = KInterface then 1 else 0))")
    (auto elim!: Kind.elims)

text \<open>
  \<open>reflect.ValueOf(v)\<close> is the argument itself; \<open>rv.Type()\<close> panics when it is the zero
  Value, that is when \<open>v\<close> is the \<open>nil\<close> interface.
\<close>

definition valueOf :: "gvalue \<Rightarrow> panic + gvalue" where
  "valueOf v =
     (case TypeOf v of
        None \<Rightarrow> Inl TypeOfZeroValue
      | Some t \<Rightarrow>
          Inr (valueOf_loop (if KindT t = KPointer \<and> IsNil v then Zero (ElemT t) else v)))"

declare valueOf_loop.simps [simp del]

section \<open>The flattener: \<open>fields\<close> (reflect.go, lines 30-85)\<close>

text \<open>
  A panic ends the call it happens in and every call around it. The loop over the visible
  fields appends what each iteration yields, in order, and ends with the first panic.
\<close>

fun collect :: "(panic + 'a list) list \<Rightarrow> panic + 'a list" where
  "collect [] = Inr []"
| "collect (r # rs) =
     (case r of
        Inl p \<Rightarrow> Inl p
      | Inr xs \<Rightarrow> (case collect rs of Inl p \<Rightarrow> Inl p | Inr ys \<Rightarrow> Inr (xs @ ys)))"

text \<open>
  The measure that shows that \<open>fields\<close> terminates: the weight of a value counts its own
  structure and the declared types of its fields, so that the zero value substituted for
  a nil pointer weighs less than the struct that declares the pointer.
\<close>

fun tweight :: "gtype \<Rightarrow> nat" where
  "tweight (TPointer t) = Suc (tweight t)"
| "tweight (TStruct fs) = Suc (2 * sum_list (map (\<lambda>f. tweight (sfType f)) fs))"
| "tweight t = 0"

fun vweight :: "gvalue \<Rightarrow> nat" where
  "vweight (VInterface x) = Suc (vweight x)"
| "vweight (VNilPointer t) = Suc (tweight t)"
| "vweight (VPointer x) = Suc (vweight x)"
| "vweight (VStruct ds vs) =
     Suc (sum_list (map (\<lambda>f. tweight (sfType f)) ds) + sum_list (map vweight vs))"
| "vweight v = 0"

lemma vweight_Zero: "vweight (Zero t) = tweight t"
proof (induction t rule: Zero.induct)
  case (6 fs)
  have "map (\<lambda>f. vweight (Zero (sfType f))) fs = map (\<lambda>f. tweight (sfType f)) fs"
    using 6 by (simp cong: map_cong)
  then have "sum_list (map (\<lambda>f. vweight (Zero (sfType f))) fs)
      = sum_list (map (\<lambda>f. tweight (sfType f)) fs)"
    by (rule arg_cong)
  then show ?case by (simp add: comp_def)
qed simp_all

lemma vweight_valueOf_loop: "vweight (valueOf_loop rv) \<le> vweight rv"
proof (induction rv rule: valueOf_loop.induct)
  case (1 rv)
  show ?case
  proof (cases "Kind rv = KPointer \<or> Kind rv = KInterface")
    case True
    then have "vweight (valueOf_loop rv) \<le> vweight (Elem rv)"
      using 1 by (subst valueOf_loop.simps) simp
    moreover have "vweight (Elem rv) \<le> vweight rv" by (cases rv) simp_all
    ultimately show ?thesis by simp
  next
    case False
    then show ?thesis by (subst valueOf_loop.simps) simp
  qed
qed

lemma valueOf_cases:
  "valueOf v = Inr rv \<Longrightarrow>
     (\<exists>t. v = VNilPointer t \<and> rv = valueOf_loop (Zero t)) \<or> rv = valueOf_loop v"
  by (cases v) (auto simp: valueOf_def split: option.splits)

lemma vweight_valueOf: "valueOf v = Inr rv \<Longrightarrow> vweight rv \<le> vweight v"
proof -
  assume "valueOf v = Inr rv"
  then consider t where "v = VNilPointer t" "rv = valueOf_loop (Zero t)"
    | "rv = valueOf_loop v"
    using valueOf_cases by blast
  then show ?thesis
  proof cases
    case 1
    have "vweight (valueOf_loop (Zero t)) \<le> vweight (Zero t)" by (rule vweight_valueOf_loop)
    with 1 show ?thesis by (simp add: vweight_Zero)
  next
    case 2
    then show ?thesis by (simp add: vweight_valueOf_loop)
  qed
qed

lemma vweight_Interface: "Interface x = Inr y \<Longrightarrow> vweight y \<le> vweight x"
  by (cases x) auto

lemma vweight_Field: "Field v i = Inr w \<Longrightarrow> vweight w < vweight v"
proof (cases v)
  case (VStruct ds vs)
  assume "Field v i = Inr w"
  with VStruct have "w \<in> set vs" by (auto split: if_splits)
  then have "vweight w \<le> sum_list (map vweight vs)"
    by (simp add: member_le_sum_list)
  with VStruct show ?thesis by simp
qed auto

lemma vweight_throughPointer: "throughPointer v = Inr s \<Longrightarrow> vweight s \<le> vweight v"
  by (cases v) (auto simp: throughPointer_def split: option.splits if_splits)

lemma vweight_FieldByIndex_step:
  "FieldByIndex_step v index = Inr w \<Longrightarrow> vweight w \<le> vweight v"
proof (induction v index rule: FieldByIndex_step.induct)
  case (1 v)
  then show ?case by simp
next
  case (2 v x index)
  from "2.prems" obtain s u where s: "throughPointer v = Inr s"
    and u: "Field s x = Inr u" and w: "FieldByIndex_step u index = Inr w"
    by (auto split: sum.splits)
  from "2.IH" [OF s u w] vweight_Field [OF u] vweight_throughPointer [OF s]
  show ?case by simp
qed

lemma vweight_FieldByIndex:
  "FieldByIndex v index = Inr w \<Longrightarrow> index \<noteq> [] \<Longrightarrow> vweight w < vweight v"
proof (cases index)
  case (Cons x xs)
  assume "FieldByIndex v index = Inr w"
  with Cons obtain u where u: "Field v x = Inr u" and w: "FieldByIndex_step u xs = Inr w"
    by (auto split: sum.splits)
  from vweight_Field [OF u] vweight_FieldByIndex_step [OF w] show ?thesis by simp
qed simp

lemma walk_index_nonempty: "(index, f) \<in> set (walk t pre) \<Longrightarrow> length pre < length index"
proof (induction t pre arbitrary: index f rule: walk.induct)
  case (1 fs pre)
  from "1.prems" obtain i g where ig: "(i, g) \<in> set (enumerate 0 fs)"
    and mem: "(index, f) = (pre @ [i], g) \<or>
      (sfAnonymous g \<and> (index, f) \<in> set (walk (if KindT (sfType g) = KPointer
          then ElemT (sfType g) else sfType g) (pre @ [i])))"
    by (auto split: if_splits)
  from mem show ?case
  proof
    assume "(index, f) = (pre @ [i], g)"
    then show ?thesis by simp
  next
    assume a: "sfAnonymous g \<and> (index, f) \<in> set (walk (if KindT (sfType g) = KPointer
          then ElemT (sfType g) else sfType g) (pre @ [i]))"
    from "1.IH" [OF ig refl _ ] a have "length (pre @ [i]) < length index" by blast
    then show ?thesis by simp
  qed
qed simp_all

lemma tweight_ElemT: "tweight (ElemT t) \<le> tweight t"
  by (cases t) simp_all

lemma tweight_walk: "(index, f) \<in> set (walk t pre) \<Longrightarrow> 2 * tweight (sfType f) < tweight t"
proof (induction t pre arbitrary: index f rule: walk.induct)
  case (1 fs pre)
  from "1.prems" obtain i g where ig: "(i, g) \<in> set (enumerate 0 fs)"
    and mem: "(index, f) = (pre @ [i], g) \<or>
      (sfAnonymous g \<and> (index, f) \<in> set (walk (if KindT (sfType g) = KPointer
          then ElemT (sfType g) else sfType g) (pre @ [i])))"
    by (auto split: if_splits)
  from ig have g: "g \<in> set fs" by (rule enumerate_snd_mem)
  then have le: "tweight (sfType g) \<le> sum_list (map (\<lambda>f. tweight (sfType f)) fs)"
    by (induction fs) auto
  from mem show ?case
  proof
    assume "(index, f) = (pre @ [i], g)"
    with le show ?thesis by simp
  next
    assume a: "sfAnonymous g \<and> (index, f) \<in> set (walk (if KindT (sfType g) = KPointer
          then ElemT (sfType g) else sfType g) (pre @ [i]))"
    from "1.IH" [OF ig refl _ ] a
    have "2 * tweight (sfType f)
        < tweight (if KindT (sfType g) = KPointer then ElemT (sfType g) else sfType g)"
      by blast
    also have "\<dots> \<le> tweight (sfType g)" by (simp add: tweight_ElemT)
    finally show ?thesis using le by simp
  qed
qed simp_all

lemma VisibleFields_subset: "set (VisibleFields t) \<subseteq> set (walk t [])"
  by (auto simp: VisibleFields_def)

text \<open>
  \<open>fields\<close>, line by line. The argument \<open>v\<close> is an \<open>interface{}\<close>; \<open>names\<close> is the path of
  component names above the value. Appending to \<open>names\<close> never changes what the caller
  sees of it, so the slice is a list.
\<close>

function fields :: "gvalue \<Rightarrow> string list \<Rightarrow> panic + field list" where
  "fields v names =
     (case valueOf v of
        Inl p \<Rightarrow> Inl p
      | Inr rv \<Rightarrow>
          if Kind rv \<noteq> KStruct then Inl NotAStruct
          else
            (case TypeOf rv of
               None \<Rightarrow> Inl TypeOfZeroValue
             | Some t \<Rightarrow>
                 collect (map (\<lambda>(index, tf).
                    if \<not> IsExported tf then Inr []
                    else
                      (case FieldByIndex rv index of
                         Inl p \<Rightarrow> Inl p
                       | Inr rf0 \<Rightarrow>
                           let rf = (if KindT (sfType tf) = KPointer \<and> IsNil rf0
                                     then Zero (ElemT (sfType tf)) else rf0)
                           in
                             if Kind (Indirect rf) = KStruct then
                               (if \<not> sfAnonymous tf then
                                  (case Interface rf of
                                     Inl p \<Rightarrow> Inl p
                                   | Inr x \<Rightarrow> fields x (names @ [sfName tf]))
                                else Inr [])
                             else
                               (case parseTags (sfTag tf) of
                                  (tags, ignored) \<Rightarrow>
                                    if ignored then Inr []
                                    else
                                      (case Interface rf of
                                         Inl p \<Rightarrow> Inl p
                                       | Inr x \<Rightarrow>
                                           Inr [applyTags
                                                  \<lparr>Name = Join (names @ [sfName tf]) ''.'',
                                                   Label = sfName tf,
                                                   Placeholder = sfName tf,
                                                   Type = ''text'',
                                                   ID = [],
                                                   ReadOnly = False,
                                                   Value = x,
                                                   Footer = [],
                                                   Class = []\<rparr>
                                                  tags]))))
                   (VisibleFields t))))"
  by pat_completeness auto
termination
proof (relation "measure (\<lambda>(v, names). vweight v)", goal_cases)
  case 1
  show ?case by simp
next
  case (2 v names rv t e index tf rf0 rf x)
  from 2(2,3) obtain ds vs where rv: "rv = VStruct ds vs" and t: "t = TStruct ds"
    by (cases rv) auto
  from 2(4,5) VisibleFields_subset have w: "(index, tf) \<in> set (walk t [])" by auto
  have "vweight x < vweight rv"
  proof (cases "KindT (sfType tf) = KPointer \<and> IsNil rf0")
    case True
    with 2(8) have "rf = Zero (ElemT (sfType tf))" by simp
    with 2(9,11) have x: "x = Zero (ElemT (sfType tf))"
      by (cases "ElemT (sfType tf)") auto
    from True have e: "tweight (ElemT (sfType tf)) < tweight (sfType tf)"
      by (cases "sfType tf") auto
    from tweight_walk [OF w] t
    have "tweight (sfType tf) \<le> sum_list (map (\<lambda>f. tweight (sfType f)) ds)" by simp
    with e x rv show ?thesis by (simp add: vweight_Zero)
  next
    case False
    with 2(8,11) have "Interface rf0 = Inr x" by auto
    then have "vweight x \<le> vweight rf0" by (rule vweight_Interface)
    moreover from walk_index_nonempty [OF w] have "index \<noteq> []" by auto
    with 2(7) have "vweight rf0 < vweight rv" by (rule vweight_FieldByIndex)
    ultimately show ?thesis by simp
  qed
  with vweight_valueOf [OF 2(1)] show ?case by simp
qed

declare fields.simps [simp del]

text \<open>
  The body of the loop of \<open>fields\<close> (lines 42-82) as a function of its own: what one
  visible field \<open>tf\<close> with index sequence \<open>index\<close> adds to the result for the struct \<open>rv\<close>.
  \<open>fields_unfold\<close> shows that \<open>fields\<close> is the loop over this body.
\<close>

definition visit :: "gvalue \<Rightarrow> string list \<Rightarrow> nat list \<times> sfield \<Rightarrow> panic + field list" where
  "visit rv names e =
     (case e of (index, tf) \<Rightarrow>
        if \<not> IsExported tf then Inr []
        else
          (case FieldByIndex rv index of
             Inl p \<Rightarrow> Inl p
           | Inr rf0 \<Rightarrow>
               let rf = (if KindT (sfType tf) = KPointer \<and> IsNil rf0
                         then Zero (ElemT (sfType tf)) else rf0)
               in
                 if Kind (Indirect rf) = KStruct then
                   (if \<not> sfAnonymous tf then
                      (case Interface rf of
                         Inl p \<Rightarrow> Inl p
                       | Inr x \<Rightarrow> fields x (names @ [sfName tf]))
                    else Inr [])
                 else
                   (case parseTags (sfTag tf) of
                      (tags, ignored) \<Rightarrow>
                        if ignored then Inr []
                        else
                          (case Interface rf of
                             Inl p \<Rightarrow> Inl p
                           | Inr x \<Rightarrow>
                               Inr [applyTags
                                      \<lparr>Name = Join (names @ [sfName tf]) ''.'',
                                       Label = sfName tf,
                                       Placeholder = sfName tf,
                                       Type = ''text'',
                                       ID = [],
                                       ReadOnly = False,
                                       Value = x,
                                       Footer = [],
                                       Class = []\<rparr>
                                      tags]))))"

lemma visit_eq:
  "visit rv names =
     (\<lambda>(index, tf).
        if \<not> IsExported tf then Inr []
        else
          (case FieldByIndex rv index of
             Inl p \<Rightarrow> Inl p
           | Inr rf0 \<Rightarrow>
               let rf = (if KindT (sfType tf) = KPointer \<and> IsNil rf0
                         then Zero (ElemT (sfType tf)) else rf0)
               in
                 if Kind (Indirect rf) = KStruct then
                   (if \<not> sfAnonymous tf then
                      (case Interface rf of
                         Inl p \<Rightarrow> Inl p
                       | Inr x \<Rightarrow> fields x (names @ [sfName tf]))
                    else Inr [])
                 else
                   (case parseTags (sfTag tf) of
                      (tags, ignored) \<Rightarrow>
                        if ignored then Inr []
                        else
                          (case Interface rf of
                             Inl p \<Rightarrow> Inl p
                           | Inr x \<Rightarrow>
                               Inr [applyTags
                                      \<lparr>Name = Join (names @ [sfName tf]) ''.'',
                                       Label = sfName tf,
                                       Placeholder = sfName tf,
                                       Type = ''text'',
                                       ID = [],
                                       ReadOnly = False,
                                       Value = x,
                                       Footer = [],
                                       Class = []\<rparr>
                                      tags]))))"
  by (rule ext) (simp only: visit_def)

lemma fields_unfold:
  "fields v names =
     (case valueOf v of
        Inl p \<Rightarrow> Inl p
      | Inr rv \<Rightarrow>
          if Kind rv \<noteq> KStruct then Inl NotAStruct
          else
            (case TypeOf rv of
               None \<Rightarrow> Inl TypeOfZeroValue
             | Some t \<Rightarrow> collect (map (visit rv names) (VisibleFields t))))"
  by (subst fields.simps) (simp only: visit_eq)

lemmas eval_simps =
  visit_def valueOf_def valueOf_loop.simps VisibleFields_def parseTags_def Split_def
  applyTags_def mapGet_def TrimSpace_eval IsExported_def throughPointer_def Let_def

text \<open>
  The value of a visible field as the loop reads it (lines 46-50): the field at its index
  sequence, and the zero value of the element type when the field is a nil pointer.
\<close>

definition fieldValue :: "gvalue \<Rightarrow> nat list \<Rightarrow> sfield \<Rightarrow> panic + gvalue" where
  "fieldValue rv index tf =
     (case FieldByIndex rv index of
        Inl p \<Rightarrow> Inl p
      | Inr rf0 \<Rightarrow>
          Inr (if KindT (sfType tf) = KPointer \<and> IsNil rf0
               then Zero (ElemT (sfType tf)) else rf0))"

text \<open>
  Declaration order of index sequences: \<open>index_less a b\<close> when \<open>a\<close> comes before \<open>b\<close> in the
  depth-first walk of the declarations, a field before the fields inside it.
\<close>

definition index_less :: "nat list \<Rightarrow> nat list \<Rightarrow> bool" where
  "index_less a b = ((a, b) \<in> lexord {(m, n). m < n})"

text \<open>
  An example, the input of the test "nested with tags": a record with two string
  components and a nested record, and the descriptors the test expects.
\<close>

definition scott :: gvalue where
  "scott = VStruct
     [StructField ''Name'' [] TString ''label=Full Name;id=name'' False,
      StructField ''Password'' [] TString ''type=password;footer=Something super secret!'' False,
      StructField ''Address'' []
        (TStruct [StructField ''Street1'' [] TString ''name=street'' False]) [] False]
     [VString ''Michael Scott'', VString [],
      VStruct [StructField ''Street1'' [] TString ''name=street'' False]
        [VString ''123 Test St'']]"

definition scott_fields :: "field list" where
  "scott_fields =
     [\<lparr>Name = ''Name'', Label = ''Full Name'', Placeholder = ''Full Name'', Type = ''text'',
       ID = ''name'', ReadOnly = False, Value = VString ''Michael Scott'', Footer = [],
       Class = []\<rparr>,
      \<lparr>Name = ''Password'', Label = ''Password'', Placeholder = ''Password'',
       Type = ''password'', ID = [], ReadOnly = False, Value = VString [],
       Footer = ''Something super secret!'', Class = []\<rparr>,
      \<lparr>Name = ''street'', Label = ''Street1'', Placeholder = ''Street1'', Type = ''text'',
       ID = [], ReadOnly = False, Value = VString ''123 Test St'', Footer = [],
       Class = []\<rparr>]"



text \<open>
  The input of the test "simple with ignored": a record with a string component and a
  string component marked as ignored.
\<close>

definition ignored :: gvalue where
  "ignored =
     VStruct [StructField ''Name'' [] TString [] False,
              StructField ''Ignored'' [] TString ''-'' False]
             [VString [], VString ''secret info'']"



text \<open>
  A declared field with another annotation, and the visible fields of a struct type when
  the field at one index sequence gets another annotation.
\<close>

definition withTag :: "sfield \<Rightarrow> string \<Rightarrow> sfield" where
  "withTag f tag = StructField (sfName f) (sfPkgPath f) (sfType f) tag (sfAnonymous f)"

definition retag :: "nat list \<Rightarrow> string \<Rightarrow> nat list \<times> sfield \<Rightarrow> nat list \<times> sfield" where
  "retag at tag e = (fst e, if fst e = at then withTag (snd e) tag else snd e)"

section \<open>The descriptor builder: label and placeholder\<close>

text \<open>
  Claim C8. When the annotation supplies \<open>label\<close>, \<open>applyTags\<close> sets Label to its value,
  and Placeholder to the value of \<open>placeholder\<close> when the annotation supplies that too, and
  to the label value otherwise: the placeholder override is applied after the label
  override and wins.
\<close>

theorem applyTags_label_placeholder:
  assumes "mapGet tags ''label'' = Some l"
  shows "Label (applyTags f tags) = l \<and>
         Placeholder (applyTags f tags) =
           (case mapGet tags ''placeholder'' of None \<Rightarrow> l | Some p \<Rightarrow> p)"
  using assms by (simp add: applyTags_def Let_def split: option.splits)

theorem applyTags_label_placeholder_witness:
  "mapGet (fst (parseTags ''label=Full Name'')) ''label'' = Some ''Full Name'' \<and>
   Placeholder (applyTags
      \<lparr>Name = ''Name'', Label = ''Name'', Placeholder = ''Name'', Type = ''text'', ID = [],
       ReadOnly = False, Value = VString [], Footer = [], Class = []\<rparr>
      (fst (parseTags ''label=Full Name''))) = ''Full Name'' \<and>
   mapGet (fst (parseTags ''label=Full Name;placeholder=Your name'')) ''label''
     = Some ''Full Name'' \<and>
   Placeholder (applyTags
      \<lparr>Name = ''Name'', Label = ''Name'', Placeholder = ''Name'', Type = ''text'', ID = [],
       ReadOnly = False, Value = VString [], Footer = [], Class = []\<rparr>
      (fst (parseTags ''label=Full Name;placeholder=Your name''))) = ''Your name''"
proof -
  have a: "mapGet (fst (parseTags ''label=Full Name'')) ''label'' = Some ''Full Name''"
    by (simp add: eval_simps)
  have b: "mapGet (fst (parseTags ''label=Full Name;placeholder=Your name'')) ''label''
      = Some ''Full Name''"
    by (simp add: eval_simps)
  have c: "mapGet (fst (parseTags ''label=Full Name'')) ''placeholder'' = None"
    by (simp add: eval_simps)
  have d: "mapGet (fst (parseTags ''label=Full Name;placeholder=Your name'')) ''placeholder''
      = Some ''Your name''"
    by (simp add: eval_simps)
  show ?thesis
    using a b applyTags_label_placeholder [OF a] applyTags_label_placeholder [OF b]
    by (simp add: c d)
qed

section \<open>The key \<open>options\<close>\<close>

text \<open>
  Claim C1. The struct \<open>field\<close> of reflect.go has no Options attribute and \<open>applyTags\<close>
  reads no key \<open>options\<close>: for the component \<open>Name string `form:"options=readonly,required"`\<close>
  with the value "Michael Scott" (the input of the test "multiple options"), the
  descriptor is the default one, and none of its attributes holds the list of tokens.
\<close>

theorem fields_options_unused:
  "fields (VStruct [StructField ''Name'' [] TString ''options=readonly,required'' False]
             [VString ''Michael Scott'']) []
   = Inr [\<lparr>Name = ''Name'', Label = ''Name'', Placeholder = ''Name'', Type = ''text'',
           ID = [], ReadOnly = False, Value = VString ''Michael Scott'', Footer = [],
           Class = []\<rparr>]"
  by (simp add: fields_unfold eval_simps)

section \<open>The annotation parser: key/value segments\<close>

lemma Split_from_first:
  "Split_from piece s sep =
     (piece @ takeWhile (\<lambda>c. c \<noteq> sep) s) #
     (case dropWhile (\<lambda>c. c \<noteq> sep) s of [] \<Rightarrow> [] | c # s' \<Rightarrow> Split_from [] s' sep)"
  by (induction s arbitrary: piece) auto

lemma Split_from_not_Nil: "Split_from piece s sep \<noteq> []"
  by (subst Split_from_first) simp

lemma Split_from_no_sep: "sep \<notin> set s \<Longrightarrow> Split_from piece s sep = [piece @ s]"
  by (induction s arbitrary: piece) auto

lemma Split_no_sep: "sep \<notin> set s \<Longrightarrow> Split s sep = [s]"
  by (simp add: Split_def Split_from_no_sep)

lemma Split_with_sep:
  assumes "sep \<in> set s"
  shows "\<exists>rest. Split s sep =
     takeWhile (\<lambda>c. c \<noteq> sep) s #
     takeWhile (\<lambda>c. c \<noteq> sep) (tl (dropWhile (\<lambda>c. c \<noteq> sep) s)) # rest"
proof -
  from assms obtain s' where d: "dropWhile (\<lambda>c. c \<noteq> sep) s = sep # s'"
    by (metis (mono_tags, lifting) dropWhile_eq_Nil_conv hd_dropWhile list.exhaust_sel)
  have "Split s sep = takeWhile (\<lambda>c. c \<noteq> sep) s # Split_from [] s' sep"
    unfolding Split_def by (subst Split_from_first) (simp add: d)
  moreover have "\<exists>rest. Split_from [] s' sep = takeWhile (\<lambda>c. c \<noteq> sep) s' # rest"
    by (subst Split_from_first) simp
  ultimately show ?thesis using d by auto
qed

lemma parseTags_loop_segment_with_eq:
  assumes "CHR ''='' \<in> set seg"
  shows "parseTags_loop (seg # split) ret =
         parseTags_loop split
           (ret(TrimSpace (takeWhile (\<lambda>c. c \<noteq> CHR ''='') seg) \<mapsto>
                TrimSpace (takeWhile (\<lambda>c. c \<noteq> CHR ''='')
                             (tl (dropWhile (\<lambda>c. c \<noteq> CHR ''='') seg)))))"
proof -
  from Split_with_sep [OF assms] obtain rest where
    "Split seg (CHR ''='') =
       takeWhile (\<lambda>c. c \<noteq> CHR ''='') seg #
       takeWhile (\<lambda>c. c \<noteq> CHR ''='') (tl (dropWhile (\<lambda>c. c \<noteq> CHR ''='') seg)) # rest"
    by blast
  then show ?thesis by (simp add: Let_def)
qed

text \<open>
  Claim C2. The spec gives a key/value segment the value "everything after its first
  \<open>=\<close>". The code splits the segment on every \<open>=\<close> (\<open>strings.Split(tag, "=")\<close>, line
  126) and stores the second piece \<open>kv[1]\<close> only, so a value ends at the second \<open>=\<close> of
  its segment.
  For the component \<open>Password string `form:"footer=<a href=/reset>Forgot?</a>"`\<close> the
  parser stores the footer \<open><a href\<close>, and that is the Footer of the descriptor, which
  \<open>applyTags\<close> types as HTML.
\<close>

theorem parseTags_value_cut_at_second_equals:
  "mapGet (fst (parseTags ''footer=<a href=/reset>Forgot?</a>'')) ''footer''
     = Some ''<a href'' \<and>
   fields (VStruct
             [StructField ''Password'' [] TString ''footer=<a href=/reset>Forgot?</a>'' False]
             [VString []]) []
     = Inr [\<lparr>Name = ''Password'', Label = ''Password'', Placeholder = ''Password'',
             Type = ''text'', ID = [], ReadOnly = False, Value = VString [],
             Footer = ''<a href'', Class = []\<rparr>]"
  by (simp add: fields_unfold eval_simps)

section \<open>The annotation parser: segments without \<open>=\<close>\<close>

lemma parseTags_loop_no_eq:
  "CHR ''='' \<notin> set seg \<Longrightarrow>
   parseTags_loop (seg # split) ret =
     (if seg = ''-'' then (None, True) else parseTags_loop split ret)"
  by (simp add: Split_no_sep)

lemma parseTags_loop_ignored:
  "''-'' \<in> set split \<Longrightarrow> parseTags_loop split ret = (None, True)"
proof (induction split arbitrary: ret)
  case (Cons seg split)
  show ?case
  proof (cases "CHR ''='' \<in> set seg")
    case True
    then have "seg \<noteq> ''-''" by auto
    with Cons show ?thesis
      by (simp add: parseTags_loop_segment_with_eq [OF True] del: parseTags_loop.simps)
  next
    case False
    with Cons show ?thesis
      by (auto simp: parseTags_loop_no_eq simp del: parseTags_loop.simps)
  qed
qed simp

lemma parseTags_loop_not_ignored:
  "''-'' \<notin> set split \<Longrightarrow> \<exists>m. parseTags_loop split ret = (Some m, False)"
proof (induction split arbitrary: ret)
  case (Cons seg split)
  show ?case
  proof (cases "CHR ''='' \<in> set seg")
    case True
    with Cons show ?thesis
      by (simp add: parseTags_loop_segment_with_eq [OF True] del: parseTags_loop.simps)
  next
    case False
    with Cons show ?thesis
      by (auto simp: parseTags_loop_no_eq simp del: parseTags_loop.simps)
  qed
qed simp

lemma parseTags_loop_skips:
  "''-'' \<notin> set split \<Longrightarrow>
   parseTags_loop split ret =
     parseTags_loop (filter (\<lambda>seg. CHR ''='' \<in> set seg) split) ret"
proof (induction split arbitrary: ret)
  case (Cons seg split)
  show ?case
  proof (cases "CHR ''='' \<in> set seg")
    case True
    with Cons show ?thesis
      by (simp add: parseTags_loop_segment_with_eq [OF True] del: parseTags_loop.simps)
  next
    case False
    with Cons show ?thesis
      by (auto simp: parseTags_loop_no_eq simp del: parseTags_loop.simps)
  qed
qed simp

section \<open>Nil pointers to embedded records\<close>

text \<open>
  Claim C4. The input is the record \<open>struct { Name string; *Address }\<close> with
  \<open>Address = struct { City string }\<close>, its embedded pointer nil. It is its own normal
  form and a struct, yet \<open>fields\<close> panics: \<open>reflect.VisibleFields\<close> lists the promoted field
  \<open>City\<close> with the index sequence 1, 0, and \<open>FieldByIndex\<close> panics when it steps through
  the nil pointer, before the substitution of the zero value (lines 47-50) is reached.
\<close>

theorem fields_nil_embedded_pointer:
  "valueOf (VStruct
      [StructField ''Name'' [] TString [] False,
       StructField ''Address'' [] (TPointer (TStruct [StructField ''City'' [] TString [] False]))
         [] True]
      [VString ''Michael Scott'',
       VNilPointer (TStruct [StructField ''City'' [] TString [] False])])
   = Inr (VStruct
      [StructField ''Name'' [] TString [] False,
       StructField ''Address'' [] (TPointer (TStruct [StructField ''City'' [] TString [] False]))
         [] True]
      [VString ''Michael Scott'',
       VNilPointer (TStruct [StructField ''City'' [] TString [] False])]) \<and>
   fields (VStruct
      [StructField ''Name'' [] TString [] False,
       StructField ''Address'' [] (TPointer (TStruct [StructField ''City'' [] TString [] False]))
         [] True]
      [VString ''Michael Scott'',
       VNilPointer (TStruct [StructField ''City'' [] TString [] False])]) []
   = Inl NilEmbeddedPointer"
  by (simp add: fields_unfold eval_simps)

text \<open>
  Claim C5. The record \<open>v\<close> is \<open>struct { *Address }\<close> with \<open>Address = struct { City string }\<close>
  and its embedded pointer set. \<open>fields\<close> gives the same list for \<open>v\<close> and for a pointer to
  \<open>v\<close>, but for the nil pointer of \<open>v\<close>'s type it panics: the zero value of the type has the
  embedded pointer nil.
\<close>

theorem fields_null_handle_embedded_pointer:
  "fields (VStruct
      [StructField ''Address'' [] (TPointer (TStruct [StructField ''City'' [] TString [] False]))
         [] True]
      [VPointer (VStruct [StructField ''City'' [] TString [] False] [VString ''Scranton''])]) []
   = Inr [\<lparr>Name = ''City'', Label = ''City'', Placeholder = ''City'', Type = ''text'',
           ID = [], ReadOnly = False, Value = VString ''Scranton'', Footer = [],
           Class = []\<rparr>] \<and>
   fields (VPointer (VStruct
      [StructField ''Address'' [] (TPointer (TStruct [StructField ''City'' [] TString [] False]))
         [] True]
      [VPointer (VStruct [StructField ''City'' [] TString [] False] [VString ''Scranton''])])) []
   = Inr [\<lparr>Name = ''City'', Label = ''City'', Placeholder = ''City'', Type = ''text'',
           ID = [], ReadOnly = False, Value = VString ''Scranton'', Footer = [],
           Class = []\<rparr>] \<and>
   fields (VNilPointer (TStruct
      [StructField ''Address'' [] (TPointer (TStruct [StructField ''City'' [] TString [] False]))
         [] True])) []
   = Inl NilEmbeddedPointer"
  by (simp add: fields_unfold eval_simps)

section \<open>The flattener as a loop over the visible fields\<close>

lemma collect_append:
  "collect (rs @ ss) =
     (case collect rs of
        Inl p \<Rightarrow> Inl p
      | Inr xs \<Rightarrow> (case collect ss of Inl p \<Rightarrow> Inl p | Inr ys \<Rightarrow> Inr (xs @ ys)))"
  by (induction rs) (auto split: sum.splits)

lemma collect_Inr:
  "collect rs = Inr out \<Longrightarrow> \<exists>parts. rs = map Inr parts \<and> out = concat parts"
proof (induction rs arbitrary: out)
  case Nil
  then show ?case by simp
next
  case (Cons r rs)
  from Cons.prems obtain xs ys where r: "r = Inr xs" and ys: "collect rs = Inr ys"
    and out: "out = xs @ ys"
    by (auto split: sum.splits)
  from Cons.IH [OF ys] obtain parts where "rs = map Inr parts" "ys = concat parts" by blast
  with r out have "r # rs = map Inr (xs # parts) \<and> out = concat (xs # parts)" by simp
  then show ?case by (rule exI)
qed

lemma collect_map_Inr: "collect (map Inr parts) = Inr (concat parts)"
  by (induction parts) auto

lemma fields_struct:
  assumes "valueOf v = Inr rv" and "fields v names = Inr out"
  shows "\<exists>ds vs. rv = VStruct ds vs \<and>
           collect (map (visit rv names) (VisibleFields (TStruct ds))) = Inr out"
proof -
  from assms have k: "Kind rv = KStruct"
    by (subst (asm) fields_unfold) (auto split: if_splits)
  then obtain ds vs where rv: "rv = VStruct ds vs" by (cases rv) auto
  with assms show ?thesis by (subst (asm) fields_unfold) auto
qed

lemma fields_split:
  assumes "valueOf v = Inr rv" and "fields v names = Inr out"
    and "TypeOf rv = Some t" and "VisibleFields t = pre @ e # post"
  shows "\<exists>a b c. collect (map (visit rv names) pre) = Inr a \<and> visit rv names e = Inr b \<and>
           collect (map (visit rv names) post) = Inr c \<and> out = a @ b @ c"
proof -
  from fields_struct [OF assms(1,2)] assms(3,4)
  have "collect (map (visit rv names) pre @ visit rv names e # map (visit rv names) post)
      = Inr out"
    by auto
  then show ?thesis
    by (auto simp: collect_append split: sum.splits)
qed

lemma fields_parts:
  assumes "valueOf v = Inr rv" and "fields v names = Inr out" and "TypeOf rv = Some t"
  shows "\<exists>parts. out = concat parts \<and>
           map (visit rv names) (VisibleFields t) = map Inr parts"
proof -
  from fields_struct [OF assms(1,2)] assms(3)
  have "collect (map (visit rv names) (VisibleFields t)) = Inr out" by auto
  from collect_Inr [OF this] show ?thesis by blast
qed

lemma visit_record:
  assumes "IsExported tf" and "fieldValue rv index tf = Inr rf"
    and "Kind (Indirect rf) = KStruct"
  shows "visit rv names (index, tf) =
     (if sfAnonymous tf then Inr []
      else (case Interface rf of Inl p \<Rightarrow> Inl p | Inr x \<Rightarrow> fields x (names @ [sfName tf])))"
  using assms by (auto simp: visit_def fieldValue_def Let_def split: sum.splits)

lemma visit_leaf:
  assumes "IsExported tf" and "fieldValue rv index tf = Inr rf"
    and "Kind (Indirect rf) \<noteq> KStruct"
  shows "visit rv names (index, tf) =
     (if snd (parseTags (sfTag tf)) then Inr []
      else (case Interface rf of
              Inl p \<Rightarrow> Inl p
            | Inr x \<Rightarrow>
                Inr [applyTags
                       \<lparr>Name = Join (names @ [sfName tf]) ''.'', Label = sfName tf,
                        Placeholder = sfName tf, Type = ''text'', ID = [], ReadOnly = False,
                        Value = x, Footer = [], Class = []\<rparr>
                       (fst (parseTags (sfTag tf)))]))"
  using assms by (auto simp: visit_def fieldValue_def Let_def split: sum.splits prod.splits)

lemma visit_unexported: "\<not> IsExported tf \<Longrightarrow> visit rv names (index, tf) = Inr []"
  by (simp add: visit_def)

lemma visit_Inr_fieldValue:
  "visit rv names (index, tf) = Inr part \<Longrightarrow> IsExported tf \<Longrightarrow>
     \<exists>rf. fieldValue rv index tf = Inr rf"
  by (auto simp: visit_def fieldValue_def split: sum.splits if_splits)

lemma fields_scott: "fields scott [] = Inr scott_fields"
  by (simp add: scott_def scott_fields_def fields_unfold eval_simps)

lemma valueOf_scott: "valueOf scott = Inr scott"
  by (simp add: scott_def valueOf_def valueOf_loop.simps)

section \<open>The ignore marker\<close>

text \<open>
  Claim C9. Let \<open>segs\<close> be the segments of the annotation, trimmed of the white space at
  its ends. The parser returns \<open>(nil, true)\<close> exactly when some segment is the literal \<open>-\<close>,
  whatever the other segments are; otherwise every segment without \<open>=\<close> is skipped, that
  is the result is the one of the segments with \<open>=\<close> alone. In the flattener, let \<open>tf\<close> be
  a visible, exported field of the record \<open>rv\<close> with that annotation whose value is not a
  record, and let \<open>a\<close> and \<open>c\<close> be what the visible fields before and after it add: in the
  first case the output is \<open>a\<close> then \<open>c\<close>, the component is left out; in the second it is
  \<open>a\<close>, the descriptor of the component with the overrides of the parsed map, then \<open>c\<close>.
  In particular \<open>fields\<close> returns, for a record with one string component, no descriptor
  in the first case and that one descriptor in the second.
\<close>

theorem parseTags_ignore_marker:
  "snd (parseTags tag) = (''-'' \<in> set (Split (TrimSpace tag) (CHR '';''))) \<and>
   (fst (parseTags tag) = None) = (''-'' \<in> set (Split (TrimSpace tag) (CHR '';''))) \<and>
   parseTags tag =
     (if ''-'' \<in> set (Split (TrimSpace tag) (CHR '';'')) then (None, True)
      else parseTags_loop
             (filter (\<lambda>seg. CHR ''='' \<in> set seg) (Split (TrimSpace tag) (CHR '';'')))
             Map.empty) \<and>
   (fields v names = Inr out \<and> valueOf v = Inr rv \<and> TypeOf rv = Some t \<and>
    VisibleFields t = pre @ (index, tf) # post \<and> IsExported tf \<and> sfTag tf = tag \<and>
    fieldValue rv index tf = Inr rf \<and> Kind (Indirect rf) \<noteq> KStruct \<longrightarrow>
    (\<exists>a c.
        collect (map (visit rv names) pre) = Inr a \<and>
        collect (map (visit rv names) post) = Inr c \<and>
        (if ''-'' \<in> set (Split (TrimSpace tag) (CHR '';'')) then out = a @ c
         else \<exists>x. Interface rf = Inr x \<and>
                out = a @
                  [applyTags
                     \<lparr>Name = Join (names @ [sfName tf]) ''.'', Label = sfName tf,
                      Placeholder = sfName tf, Type = ''text'', ID = [], ReadOnly = False,
                      Value = x, Footer = [], Class = []\<rparr>
                     (fst (parseTags tag))] @ c))) \<and>
   fields (VStruct [StructField n [] TString tag False] [VString s]) names =
     (if ''-'' \<in> set (Split (TrimSpace tag) (CHR '';'')) then Inr []
      else Inr [applyTags
                  \<lparr>Name = Join (names @ [n]) ''.'', Label = n, Placeholder = n,
                   Type = ''text'', ID = [], ReadOnly = False, Value = VString s,
                   Footer = [], Class = []\<rparr>
                  (fst (parseTags tag))])"
proof -
  let ?segs = "Split (TrimSpace tag) (CHR '';'')"
  have loop: "parseTags tag = parseTags_loop ?segs Map.empty"
  proof (cases "TrimSpace tag = []")
    case True
    then show ?thesis by (simp add: parseTags_def Split_def)
  next
    case False
    then show ?thesis by (simp add: parseTags_def)
  qed
  have p: "parseTags tag =
      (if ''-'' \<in> set ?segs then (None, True)
       else parseTags_loop (filter (\<lambda>seg. CHR ''='' \<in> set seg) ?segs) Map.empty)"
    using parseTags_loop_ignored [of ?segs Map.empty]
      parseTags_loop_skips [of ?segs Map.empty]
    by (simp add: loop)
  have q: "snd (parseTags tag) = (''-'' \<in> set ?segs) \<and>
      (fst (parseTags tag) = None) = (''-'' \<in> set ?segs)"
  proof (cases "''-'' \<in> set ?segs")
    case True
    with parseTags_loop_ignored [of ?segs Map.empty] show ?thesis by (simp add: loop)
  next
    case False
    with parseTags_loop_not_ignored [of ?segs Map.empty] show ?thesis
      by (auto simp: loop)
  qed
  have g: "fields v names = Inr out \<and> valueOf v = Inr rv \<and> TypeOf rv = Some t \<and>
    VisibleFields t = pre @ (index, tf) # post \<and> IsExported tf \<and> sfTag tf = tag \<and>
    fieldValue rv index tf = Inr rf \<and> Kind (Indirect rf) \<noteq> KStruct \<longrightarrow>
    (\<exists>a c.
        collect (map (visit rv names) pre) = Inr a \<and>
        collect (map (visit rv names) post) = Inr c \<and>
        (if ''-'' \<in> set ?segs then out = a @ c
         else \<exists>x. Interface rf = Inr x \<and>
                out = a @
                  [applyTags
                     \<lparr>Name = Join (names @ [sfName tf]) ''.'', Label = sfName tf,
                      Placeholder = sfName tf, Type = ''text'', ID = [], ReadOnly = False,
                      Value = x, Footer = [], Class = []\<rparr>
                     (fst (parseTags tag))] @ c))"
  proof
    assume h: "fields v names = Inr out \<and> valueOf v = Inr rv \<and> TypeOf rv = Some t \<and>
      VisibleFields t = pre @ (index, tf) # post \<and> IsExported tf \<and> sfTag tf = tag \<and>
      fieldValue rv index tf = Inr rf \<and> Kind (Indirect rf) \<noteq> KStruct"
    then have h1: "valueOf v = Inr rv" and h2: "fields v names = Inr out"
      and h3: "TypeOf rv = Some t" and h4: "VisibleFields t = pre @ (index, tf) # post"
      and h5: "IsExported tf" and h6: "fieldValue rv index tf = Inr rf"
      and h7: "Kind (Indirect rf) \<noteq> KStruct" and h8: "sfTag tf = tag"
      by simp_all
    from fields_split [OF h1 h2 h3 h4] obtain a b c where
      a: "collect (map (visit rv names) pre) = Inr a"
      and b: "visit rv names (index, tf) = Inr b"
      and c: "collect (map (visit rv names) post) = Inr c"
      and out: "out = a @ b @ c"
      by blast
    have "if ''-'' \<in> set ?segs then out = a @ c
         else \<exists>x. Interface rf = Inr x \<and>
                out = a @
                  [applyTags
                     \<lparr>Name = Join (names @ [sfName tf]) ''.'', Label = sfName tf,
                      Placeholder = sfName tf, Type = ''text'', ID = [], ReadOnly = False,
                      Value = x, Footer = [], Class = []\<rparr>
                     (fst (parseTags tag))] @ c"
      using b out q unfolding visit_leaf [OF h5 h6 h7] h8
      by (auto split: sum.splits if_splits)
    with a c show "\<exists>a c.
        collect (map (visit rv names) pre) = Inr a \<and>
        collect (map (visit rv names) post) = Inr c \<and>
        (if ''-'' \<in> set ?segs then out = a @ c
         else \<exists>x. Interface rf = Inr x \<and>
                out = a @
                  [applyTags
                     \<lparr>Name = Join (names @ [sfName tf]) ''.'', Label = sfName tf,
                      Placeholder = sfName tf, Type = ''text'', ID = [], ReadOnly = False,
                      Value = x, Footer = [], Class = []\<rparr>
                     (fst (parseTags tag))] @ c)"
      by blast
  qed
  have f: "fields (VStruct [StructField n [] TString tag False] [VString s]) names =
      (if snd (parseTags tag) then Inr []
       else Inr [applyTags
                  \<lparr>Name = Join (names @ [n]) ''.'', Label = n, Placeholder = n,
                   Type = ''text'', ID = [], ReadOnly = False, Value = VString s,
                   Footer = [], Class = []\<rparr>
                  (fst (parseTags tag))])"
    by (simp add: fields_unfold visit_def valueOf_def valueOf_loop.simps VisibleFields_def
        IsExported_def split: prod.splits)
  from q have q1: "snd (parseTags tag) = (''-'' \<in> set ?segs)"
    and q2: "(fst (parseTags tag) = None) = (''-'' \<in> set ?segs)"
    by simp_all
  from f have f': "fields (VStruct [StructField n [] TString tag False] [VString s]) names =
      (if ''-'' \<in> set ?segs then Inr []
       else Inr [applyTags
                  \<lparr>Name = Join (names @ [n]) ''.'', Label = n, Placeholder = n,
                   Type = ''text'', ID = [], ReadOnly = False, Value = VString s,
                   Footer = [], Class = []\<rparr>
                  (fst (parseTags tag))])"
    by (simp only: q1)
  from q1 q2 p g f' show ?thesis by (intro conjI)
qed

theorem parseTags_ignore_marker_witness:
  "fields ignored [] =
     Inr [\<lparr>Name = ''Name'', Label = ''Name'', Placeholder = ''Name'', Type = ''text'',
           ID = [], ReadOnly = False, Value = VString [], Footer = [], Class = []\<rparr>] \<and>
   valueOf ignored = Inr ignored \<and>
   VisibleFields (TStruct [StructField ''Name'' [] TString [] False,
                           StructField ''Ignored'' [] TString ''-'' False])
     = [([0], StructField ''Name'' [] TString [] False)] @
       ([1], StructField ''Ignored'' [] TString ''-'' False) # [] \<and>
   fieldValue ignored [1] (StructField ''Ignored'' [] TString ''-'' False)
     = Inr (VString ''secret info'') \<and>
   parseTags ''-'' = (None, True) \<and>
   (\<exists>a c. collect (map (visit ignored [])
                      [([0], StructField ''Name'' [] TString [] False)]) = Inr a \<and>
          collect (map (visit ignored []) []) = Inr c \<and>
          [\<lparr>Name = ''Name'', Label = ''Name'', Placeholder = ''Name'', Type = ''text'',
            ID = [], ReadOnly = False, Value = VString [], Footer = [], Class = []\<rparr>]
            = a @ c) \<and>
   parseTags [CHR 0xC2, CHR 0xA0, CHR ''-''] = (None, True) \<and>
   parseTags ''required;label=Full Name''
     = parseTags_loop [''label=Full Name''] Map.empty"
proof -
  let ?name = "StructField ''Name'' [] TString [] False"
  let ?ign = "StructField ''Ignored'' [] TString ''-'' False"
  let ?out = "[\<lparr>Name = ''Name'', Label = ''Name'', Placeholder = ''Name'', Type = ''text'',
           ID = [], ReadOnly = False, Value = VString [], Footer = [], Class = []\<rparr>]"
  have f: "fields ignored [] = Inr ?out"
    by (simp add: ignored_def fields_unfold eval_simps)
  have v: "valueOf ignored = Inr ignored"
    by (simp add: ignored_def valueOf_def valueOf_loop.simps)
  have t: "TypeOf ignored = Some (TStruct [?name, ?ign])"
    by (simp add: ignored_def)
  have vf: "VisibleFields (TStruct [?name, ?ign]) = [([0], ?name)] @ ([1], ?ign) # []"
    by (simp add: VisibleFields_def)
  have fv: "fieldValue ignored [1] ?ign = Inr (VString ''secret info'')"
    by (simp add: fieldValue_def ignored_def)
  have seg: "Split (TrimSpace ''-'') (CHR '';'') = [''-'']"
    by (simp add: Split_def TrimSpace_eval)
  have seg2: "Split (TrimSpace [CHR 0xC2, CHR 0xA0, CHR ''-'']) (CHR '';'') = [''-'']"
    by (simp add: Split_def TrimSpace_eval)
  have seg3: "Split (TrimSpace ''required;label=Full Name'') (CHR '';'')
      = [''required'', ''label=Full Name'']"
    by (simp add: Split_def TrimSpace_eval)
  have a: "parseTags ''-'' = (None, True) \<and>
      (\<exists>a c. collect (map (visit ignored []) [([0], ?name)]) = Inr a \<and>
             collect (map (visit ignored []) []) = Inr c \<and> ?out = a @ c)"
    using parseTags_ignore_marker [of "''-''" ignored "[]" ?out ignored
        "TStruct [?name, ?ign]" "[([0], ?name)]" "[1]" ?ign "[]" "VString ''secret info''"]
      f v t vf fv
    by (simp add: seg IsExported_def)
  have b: "parseTags [CHR 0xC2, CHR 0xA0, CHR ''-''] = (None, True)"
    using parseTags_ignore_marker [of "[CHR 0xC2, CHR 0xA0, CHR ''-'']"]
    by (simp add: seg2)
  have c: "parseTags ''required;label=Full Name''
      = parseTags_loop [''label=Full Name''] Map.empty"
    using parseTags_ignore_marker [of "''required;label=Full Name''"]
    by (simp add: seg3 del: parseTags_loop.simps)
  from f v vf fv a b c show ?thesis by (intro conjI) simp_all
qed

section \<open>Order of the descriptors\<close>

lemma walk_prefix:
  "(index, f) \<in> set (walk t pre) \<Longrightarrow> \<exists>i suf. index = pre @ i # suf"
proof (induction t pre arbitrary: index f rule: walk.induct)
  case (1 fs pre)
  from "1.prems" obtain i g where ig: "(i, g) \<in> set (enumerate 0 fs)"
    and mem: "(index, f) = (pre @ [i], g) \<or>
      (sfAnonymous g \<and> (index, f) \<in> set (walk (if KindT (sfType g) = KPointer
          then ElemT (sfType g) else sfType g) (pre @ [i])))"
    by (auto split: if_splits)
  from mem show ?case
  proof
    assume "(index, f) = (pre @ [i], g)"
    then show ?thesis by simp
  next
    assume a: "sfAnonymous g \<and> (index, f) \<in> set (walk (if KindT (sfType g) = KPointer
          then ElemT (sfType g) else sfType g) (pre @ [i]))"
    from "1.IH" [OF ig refl _ ] a obtain j suf where "index = (pre @ [i]) @ j # suf" by blast
    then show ?thesis by simp
  qed
qed simp_all

lemma sorted_wrt_concat_map:
  assumes "\<And>x. x \<in> set xs \<Longrightarrow> sorted_wrt P (g x)"
    and "sorted_wrt (\<lambda>x y. \<forall>a\<in>set (g x). \<forall>b\<in>set (g y). P a b) xs"
  shows "sorted_wrt P (concat (map g xs))"
  using assms by (induction xs) (auto simp: sorted_wrt_append)

lemma sorted_wrt_enumerate: "sorted_wrt (\<lambda>x y. fst x < fst y) (enumerate n xs)"
proof -
  have "sorted_wrt (<) (map fst (enumerate n xs))" by simp
  then show ?thesis by (simp only: sorted_wrt_map)
qed

lemma walk_sorted: "sorted_wrt (\<lambda>a b. index_less (fst a) (fst b)) (walk t pre)"
proof (induction t pre rule: walk.induct)
  case (1 fs pre)
  let ?P = "\<lambda>a b. index_less (fst a) (fst b)"
  let ?sub = "\<lambda>f. if KindT (sfType f) = KPointer then ElemT (sfType f) else sfType f"
  let ?g = "\<lambda>(i, f). (pre @ [i], f) # (if sfAnonymous f then walk (?sub f) (pre @ [i]) else [])"
  have block: "\<And>i f a. (i, f) \<in> set (enumerate 0 fs) \<Longrightarrow> a \<in> set (?g (i, f)) \<Longrightarrow>
      \<exists>suf. fst a = pre @ i # suf"
  proof -
    fix i f a
    assume "(i, f) \<in> set (enumerate 0 fs)" and a: "a \<in> set (?g (i, f))"
    from a consider "a = (pre @ [i], f)" | "a \<in> set (walk (?sub f) (pre @ [i]))"
      by (auto split: if_splits)
    then show "\<exists>suf. fst a = pre @ i # suf"
    proof cases
      case 1
      then show ?thesis by simp
    next
      case 2
      then have "(fst a, snd a) \<in> set (walk (?sub f) (pre @ [i]))" by simp
      from walk_prefix [OF this] show ?thesis by auto
    qed
  qed
  have each: "\<And>x. x \<in> set (enumerate 0 fs) \<Longrightarrow> sorted_wrt ?P (?g x)"
  proof -
    fix x
    assume x: "x \<in> set (enumerate 0 fs)"
    obtain i f where xif: "x = (i, f)" by (cases x)
    show "sorted_wrt ?P (?g x)"
    proof (cases "sfAnonymous f")
      case True
      from x xif have ig: "(i, f) \<in> set (enumerate 0 fs)" by simp
      have s: "sorted_wrt ?P (walk (?sub f) (pre @ [i]))"
        by (rule "1.IH" [OF ig refl True])
      have "\<forall>b\<in>set (walk (?sub f) (pre @ [i])). index_less (pre @ [i]) (fst b)"
      proof
        fix b
        assume "b \<in> set (walk (?sub f) (pre @ [i]))"
        then have "(fst b, snd b) \<in> set (walk (?sub f) (pre @ [i]))" by simp
        from walk_prefix [OF this] obtain j suf where "fst b = (pre @ [i]) @ j # suf" by blast
        moreover have "(pre @ [i], (pre @ [i]) @ j # suf) \<in> lexord {(m, n). m < n}"
          by (rule lexord_append_rightI) blast
        ultimately show "index_less (pre @ [i]) (fst b)"
          unfolding index_less_def by simp
      qed
      with s True xif show ?thesis by simp
    next
      case False
      with xif show ?thesis by simp
    qed
  qed
  have "sorted_wrt (\<lambda>x y. fst x < fst y) (enumerate 0 fs)" by (rule sorted_wrt_enumerate)
  then have between:
    "sorted_wrt (\<lambda>x y. \<forall>a\<in>set (?g x). \<forall>b\<in>set (?g y). ?P a b) (enumerate 0 fs)"
  proof (rule sorted_wrt_mono_rel [rotated])
    fix x y
    assume x: "x \<in> set (enumerate 0 fs)" and y: "y \<in> set (enumerate 0 fs)"
      and lt: "fst x < fst y"
    obtain i f where xif: "x = (i, f)" by (cases x)
    obtain j h where yjh: "y = (j, h)" by (cases y)
    show "\<forall>a\<in>set (?g x). \<forall>b\<in>set (?g y). ?P a b"
    proof (intro ballI)
      fix a b
      assume "a \<in> set (?g x)" and "b \<in> set (?g y)"
      with block x y xif yjh obtain s1 s2 where "fst a = pre @ i # s1" "fst b = pre @ j # s2"
        by blast
      moreover from lt xif yjh have "(pre @ i # s1, pre @ j # s2) \<in> lexord {(m, n). m < n}"
        by (intro lexord_append_left_rightI) simp
      ultimately show "?P a b"
        unfolding index_less_def by simp
    qed
  qed
  have "sorted_wrt ?P (concat (map ?g (enumerate 0 fs)))"
    using each between by (rule sorted_wrt_concat_map)
  then show ?case by simp
qed simp_all

lemma VisibleFields_sorted:
  "sorted_wrt (\<lambda>a b. index_less (fst a) (fst b)) (VisibleFields t)"
  unfolding VisibleFields_def by (rule sorted_wrt_filter) (rule walk_sorted)

text \<open>
  Claim C7. The output is the concatenation of one part per visible field, in the order
  of \<open>reflect.VisibleFields\<close>, which is declaration order (the index sequences increase).
  Every part is determined. The part of a named nested record is the whole result of
  \<open>fields\<close> on that record under the extended path, so its descriptors stand together at
  the record's position; an embedded record and a field that is not exported have the
  empty part; any other field has the empty part when its annotation holds the ignore
  marker, and otherwise exactly its own descriptor: the default descriptor of its name
  and value with the overrides of its annotation. Since the part of a nested record is
  itself such a concatenation, the output is in depth-first pre-order of declaration.
\<close>

theorem fields_preorder:
  assumes "fields v names = Inr out" and "valueOf v = Inr rv" and "TypeOf rv = Some t"
  shows "\<exists>parts.
      out = concat parts \<and> length parts = length (VisibleFields t) \<and>
      (\<forall>i<length parts. \<forall>index tf.
          VisibleFields t ! i = (index, tf) \<and> IsExported tf \<longrightarrow>
          (\<exists>rf. fieldValue rv index tf = Inr rf \<and>
             (if Kind (Indirect rf) = KStruct then
                (if sfAnonymous tf then parts ! i = []
                 else \<exists>x. Interface rf = Inr x \<and>
                        fields x (names @ [sfName tf]) = Inr (parts ! i))
              else
                (if snd (parseTags (sfTag tf)) then parts ! i = []
                 else \<exists>x. Interface rf = Inr x \<and>
                        parts ! i =
                          [applyTags
                             \<lparr>Name = Join (names @ [sfName tf]) ''.'', Label = sfName tf,
                              Placeholder = sfName tf, Type = ''text'', ID = [],
                              ReadOnly = False, Value = x, Footer = [], Class = []\<rparr>
                             (fst (parseTags (sfTag tf)))])))) \<and>
      (\<forall>i<length parts. \<forall>index tf.
          VisibleFields t ! i = (index, tf) \<and> \<not> IsExported tf \<longrightarrow> parts ! i = []) \<and>
      sorted_wrt (\<lambda>a b. index_less (fst a) (fst b)) (VisibleFields t)"
proof -
  from fields_parts [OF assms(2,1,3)] obtain parts where out: "out = concat parts"
    and m: "map (visit rv names) (VisibleFields t) = map Inr parts"
    by blast
  from m have len: "length parts = length (VisibleFields t)"
    by (metis length_map)
  have nth: "visit rv names (VisibleFields t ! i) = Inr (parts ! i)" if "i < length parts" for i
  proof -
    from that len have "map (visit rv names) (VisibleFields t) ! i
        = visit rv names (VisibleFields t ! i)"
      by simp
    with m that show ?thesis by simp
  qed
  have exported: "\<forall>i<length parts. \<forall>index tf.
          VisibleFields t ! i = (index, tf) \<and> IsExported tf \<longrightarrow>
          (\<exists>rf. fieldValue rv index tf = Inr rf \<and>
             (if Kind (Indirect rf) = KStruct then
                (if sfAnonymous tf then parts ! i = []
                 else \<exists>x. Interface rf = Inr x \<and>
                        fields x (names @ [sfName tf]) = Inr (parts ! i))
              else
                (if snd (parseTags (sfTag tf)) then parts ! i = []
                 else \<exists>x. Interface rf = Inr x \<and>
                        parts ! i =
                          [applyTags
                             \<lparr>Name = Join (names @ [sfName tf]) ''.'', Label = sfName tf,
                              Placeholder = sfName tf, Type = ''text'', ID = [],
                              ReadOnly = False, Value = x, Footer = [], Class = []\<rparr>
                             (fst (parseTags (sfTag tf)))])))"
  proof (intro allI impI)
    fix i index tf
    assume i: "i < length parts"
      and h: "VisibleFields t ! i = (index, tf) \<and> IsExported tf"
    from nth [OF i] h have v: "visit rv names (index, tf) = Inr (parts ! i)" by simp
    from h have ex: "IsExported tf" by simp
    from visit_Inr_fieldValue [OF v ex] obtain rf where rf: "fieldValue rv index tf = Inr rf"
      by blast
    have "if Kind (Indirect rf) = KStruct then
             (if sfAnonymous tf then parts ! i = []
              else \<exists>x. Interface rf = Inr x \<and>
                     fields x (names @ [sfName tf]) = Inr (parts ! i))
           else
             (if snd (parseTags (sfTag tf)) then parts ! i = []
              else \<exists>x. Interface rf = Inr x \<and>
                     parts ! i =
                       [applyTags
                          \<lparr>Name = Join (names @ [sfName tf]) ''.'', Label = sfName tf,
                           Placeholder = sfName tf, Type = ''text'', ID = [],
                           ReadOnly = False, Value = x, Footer = [], Class = []\<rparr>
                          (fst (parseTags (sfTag tf)))])"
    proof (cases "Kind (Indirect rf) = KStruct")
      case True
      with v visit_record [OF ex rf True, of names] show ?thesis
        by (auto split: sum.splits if_splits)
    next
      case False
      with v visit_leaf [OF ex rf False, of names] show ?thesis
        by (auto split: sum.splits if_splits)
    qed
    with rf show "\<exists>rf. fieldValue rv index tf = Inr rf \<and>
             (if Kind (Indirect rf) = KStruct then
                (if sfAnonymous tf then parts ! i = []
                 else \<exists>x. Interface rf = Inr x \<and>
                        fields x (names @ [sfName tf]) = Inr (parts ! i))
              else
                (if snd (parseTags (sfTag tf)) then parts ! i = []
                 else \<exists>x. Interface rf = Inr x \<and>
                        parts ! i =
                          [applyTags
                             \<lparr>Name = Join (names @ [sfName tf]) ''.'', Label = sfName tf,
                              Placeholder = sfName tf, Type = ''text'', ID = [],
                              ReadOnly = False, Value = x, Footer = [], Class = []\<rparr>
                             (fst (parseTags (sfTag tf)))]))"
      by blast
  qed
  have unexported: "\<forall>i<length parts. \<forall>index tf.
          VisibleFields t ! i = (index, tf) \<and> \<not> IsExported tf \<longrightarrow> parts ! i = []"
  proof (intro allI impI)
    fix i index tf
    assume i: "i < length parts"
      and h: "VisibleFields t ! i = (index, tf) \<and> \<not> IsExported tf"
    from nth [OF i] h show "parts ! i = []" by (simp add: visit_unexported)
  qed
  from out len exported unexported VisibleFields_sorted show ?thesis by blast
qed

theorem fields_preorder_witness:
  "fields scott [] = Inr scott_fields \<and> valueOf scott = Inr scott \<and>
   TypeOf scott = Some (TStruct
     [StructField ''Name'' [] TString ''label=Full Name;id=name'' False,
      StructField ''Password'' [] TString ''type=password;footer=Something super secret!'' False,
      StructField ''Address'' []
        (TStruct [StructField ''Street1'' [] TString ''name=street'' False]) [] False]) \<and>
   (\<exists>parts. scott_fields = concat parts \<and> length parts = 3 \<and>
      parts ! 0 =
        [\<lparr>Name = ''Name'', Label = ''Full Name'', Placeholder = ''Full Name'',
          Type = ''text'', ID = ''name'', ReadOnly = False,
          Value = VString ''Michael Scott'', Footer = [], Class = []\<rparr>] \<and>
      fields (VStruct [StructField ''Street1'' [] TString ''name=street'' False]
                [VString ''123 Test St'']) [''Address''] = Inr (parts ! 2))"
proof -
  let ?name = "StructField ''Name'' [] TString ''label=Full Name;id=name'' False"
  let ?address = "StructField ''Address'' []
        (TStruct [StructField ''Street1'' [] TString ''name=street'' False]) [] False"
  let ?t = "TStruct
     [?name,
      StructField ''Password'' [] TString ''type=password;footer=Something super secret!'' False,
      ?address]"
  have t: "TypeOf scott = Some ?t" by (simp add: scott_def)
  have vf: "VisibleFields ?t =
      [([0], ?name),
       ([1], StructField ''Password'' [] TString
               ''type=password;footer=Something super secret!'' False),
       ([2], ?address)]"
    by (simp add: VisibleFields_def)
  have fv0: "fieldValue scott [0] ?name = Inr (VString ''Michael Scott'')"
    by (simp add: fieldValue_def scott_def)
  have fv2: "fieldValue scott [2] ?address
      = Inr (VStruct [StructField ''Street1'' [] TString ''name=street'' False]
               [VString ''123 Test St''])"
    by (simp add: fieldValue_def scott_def)
  have tag0: "parseTags ''label=Full Name;id=name''
      = (Some [''label'' \<mapsto> ''Full Name'', ''id'' \<mapsto> ''name''], False)"
    by (simp add: parseTags_def Split_def TrimSpace_eval)
  from fields_preorder [OF fields_scott valueOf_scott t] obtain parts where
    p: "scott_fields = concat parts" "length parts = length (VisibleFields ?t)"
    and q: "\<forall>i<length parts. \<forall>index tf.
          VisibleFields ?t ! i = (index, tf) \<and> IsExported tf \<longrightarrow>
          (\<exists>rf. fieldValue scott index tf = Inr rf \<and>
             (if Kind (Indirect rf) = KStruct then
                (if sfAnonymous tf then parts ! i = []
                 else \<exists>x. Interface rf = Inr x \<and>
                        fields x ([] @ [sfName tf]) = Inr (parts ! i))
              else
                (if snd (parseTags (sfTag tf)) then parts ! i = []
                 else \<exists>x. Interface rf = Inr x \<and>
                        parts ! i =
                          [applyTags
                             \<lparr>Name = Join ([] @ [sfName tf]) ''.'', Label = sfName tf,
                              Placeholder = sfName tf, Type = ''text'', ID = [],
                              ReadOnly = False, Value = x, Footer = [], Class = []\<rparr>
                             (fst (parseTags (sfTag tf)))])))"
    by blast
  from p(2) have len: "length parts = 3" by (simp add: vf)
  from q [rule_format, of 0 "[0]" ?name] len fv0
  have p0: "parts ! 0 =
        [\<lparr>Name = ''Name'', Label = ''Full Name'', Placeholder = ''Full Name'',
          Type = ''text'', ID = ''name'', ReadOnly = False,
          Value = VString ''Michael Scott'', Footer = [], Class = []\<rparr>]"
    by (simp add: vf IsExported_def tag0 applyTags_def mapGet_def)
  from q [rule_format, of 2 "[2]" ?address] len fv2
  have "fields (VStruct [StructField ''Street1'' [] TString ''name=street'' False]
                [VString ''123 Test St'']) [''Address''] = Inr (parts ! 2)"
    by (simp add: vf IsExported_def)
  with p(1) len p0 fields_scott valueOf_scott t show ?thesis by blast
qed

section \<open>Nested records: named and embedded\<close>






section \<open>The Name of a descriptor\<close>








section \<open>The annotation of a record component\<close>

lemma withTag_simps [simp]:
  "sfName (withTag f tag) = sfName f" "sfPkgPath (withTag f tag) = sfPkgPath f"
  "sfType (withTag f tag) = sfType f" "sfAnonymous (withTag f tag) = sfAnonymous f"
  by (simp_all add: withTag_def)

lemma retag_simps [simp]:
  "fst (retag at tag e) = fst e" "sfName (snd (retag at tag e)) = sfName (snd e)"
  by (simp_all add: retag_def)












section \<open>The panic of \<open>fields\<close> itself\<close>

lemma collect_Inl: "collect rs = Inl p \<Longrightarrow> Inl p \<in> set rs"
  by (induction rs) (auto split: sum.splits)

lemma Field_not_NotAStruct: "Field v i \<noteq> Inl NotAStruct"
  by (cases v) auto

lemma FieldByIndex_step_not_NotAStruct: "FieldByIndex_step v index \<noteq> Inl NotAStruct"
proof (induction v index rule: FieldByIndex_step.induct)
  case (2 v x index)
  show ?case
  proof
    assume a: "FieldByIndex_step v (x # index) = Inl NotAStruct"
    show False
    proof (cases "throughPointer v")
      case (Inl p)
      then have "p = NilEmbeddedPointer"
        by (auto simp: throughPointer_def split: option.splits if_splits)
      with a Inl show False by simp
    next
      case (Inr s)
      show False
      proof (cases "Field s x")
        case (Inl p)
        with a Inr Field_not_NotAStruct [of s x] show False by simp
      next
        case (Inr w)
        with a \<open>throughPointer v = Inr s\<close> "2.IH" [OF \<open>throughPointer v = Inr s\<close> Inr]
        show False by simp
      qed
    qed
  qed
qed simp

lemma FieldByIndex_not_NotAStruct: "FieldByIndex v index \<noteq> Inl NotAStruct"
proof (cases index)
  case Nil
  then show ?thesis by simp
next
  case (Cons x xs)
  then show ?thesis
    using Field_not_NotAStruct [of v x] FieldByIndex_step_not_NotAStruct
    by (auto split: sum.splits)
qed

lemma Interface_not_NotAStruct: "Interface v \<noteq> Inl NotAStruct"
  by (cases v) auto

lemma valueOf_record_kind:
  assumes "Kind (Indirect rf) = KStruct" and "Interface rf = Inr x"
  shows "\<exists>ds vs. valueOf x = Inr (VStruct ds vs)"
proof (cases rf)
  case (VPointer y)
  with assms obtain ds vs where "y = VStruct ds vs" by (cases y) auto
  with VPointer assms show ?thesis by (auto simp: valueOf_def valueOf_loop.simps)
next
  case (VStruct ds vs)
  with assms show ?thesis by (auto simp: valueOf_def valueOf_loop.simps)
qed (use assms in auto)

lemma valueOf_panic: "valueOf v = Inl p \<Longrightarrow> p = TypeOfZeroValue"
  by (auto simp: valueOf_def split: option.splits)

lemma fields_NotAStruct_aux:
  "fields v names = Inl NotAStruct \<longrightarrow> (\<exists>rv. valueOf v = Inr rv \<and> Kind rv \<noteq> KStruct)"
proof (induction v names rule: fields.induct)
  case (1 v names)
  show ?case
  proof
    assume f: "fields v names = Inl NotAStruct"
    show "\<exists>rv. valueOf v = Inr rv \<and> Kind rv \<noteq> KStruct"
    proof (cases "valueOf v")
      case (Inl p)
      with valueOf_panic [OF Inl] f show ?thesis by (subst (asm) fields_unfold) simp
    next
      case (Inr rv)
      show ?thesis
      proof (cases "Kind rv = KStruct")
        case False
        with Inr show ?thesis by blast
      next
        case True
        then obtain ds vs where s: "rv = VStruct ds vs" by (cases rv) auto
        from s have t: "TypeOf rv = Some (TStruct ds)" and k: "\<not> Kind rv \<noteq> KStruct"
          by simp_all
        from f Inr s have "collect (map (visit rv names) (VisibleFields (TStruct ds)))
            = Inl NotAStruct"
          by (subst (asm) fields_unfold) simp
        from collect_Inl [OF this] obtain e where e: "e \<in> set (VisibleFields (TStruct ds))"
          and a: "visit rv names e = Inl NotAStruct"
          by auto
        obtain index tf where itf: "(index, tf) = e" by (cases e) auto
        from a itf have a': "visit rv names (index, tf) = Inl NotAStruct" by simp
        have ex: "IsExported tf"
        proof (rule ccontr)
          assume "\<not> IsExported tf"
          then have "visit rv names (index, tf) = Inr []" by (rule visit_unexported)
          with a' show False by simp
        qed
        from a' ex FieldByIndex_not_NotAStruct [of rv index]
        obtain rf0 where rf0: "FieldByIndex rv index = Inr rf0"
          by (cases "FieldByIndex rv index") (auto simp: visit_def)
        define rf where "rf = (if KindT (sfType tf) = KPointer \<and> IsNil rf0
                       then Zero (ElemT (sfType tf)) else rf0)"
        from rf0 rf_def have fv: "fieldValue rv index tf = Inr rf"
          by (simp add: fieldValue_def)
        have False
        proof (cases "Kind (Indirect rf) = KStruct")
          case True
          from a' have "(if sfAnonymous tf then Inr []
              else (case Interface rf of Inl p \<Rightarrow> Inl p
                    | Inr x \<Rightarrow> fields x (names @ [sfName tf]))) = Inl NotAStruct"
            unfolding visit_record [OF ex fv True] by simp
          then obtain x where na: "\<not> sfAnonymous tf" and x: "Interface rf = Inr x"
            and f': "fields x (names @ [sfName tf]) = Inl NotAStruct"
            using Interface_not_NotAStruct [of rf] by (auto split: if_splits sum.splits)
          from ex have ex': "\<not> \<not> IsExported tf" by simp
          from "1.IH" [OF Inr k t e itf ex' rf0 rf_def True na x] f'
          obtain rv' where "valueOf x = Inr rv'" "Kind rv' \<noteq> KStruct" by blast
          with valueOf_record_kind [OF True x] show False by auto
        next
          case False
          from a' show False
            unfolding visit_leaf [OF ex fv False]
            using Interface_not_NotAStruct [of rf] by (auto split: if_splits sum.splits)
        qed
        then show ?thesis ..
      qed
    qed
  qed
qed

text \<open>
  \<open>fields\<close> panics with "invalid value; only structs are supported" exactly when its
  argument, normalized by \<open>valueOf\<close>, is not a struct. The recursive calls never raise it:
  they are made on values that are structs after one level of indirection.
\<close>

theorem fields_NotAStruct:
  "(fields v names = Inl NotAStruct) = (\<exists>rv. valueOf v = Inr rv \<and> Kind rv \<noteq> KStruct)"
proof
  assume "fields v names = Inl NotAStruct"
  with fields_NotAStruct_aux show "\<exists>rv. valueOf v = Inr rv \<and> Kind rv \<noteq> KStruct" by blast
next
  assume "\<exists>rv. valueOf v = Inr rv \<and> Kind rv \<noteq> KStruct"
  then show "fields v names = Inl NotAStruct" by (subst fields_unfold) auto
qed

section \<open>Pointers at the top level\<close>

text \<open>
  A record, a pointer to it and an interface that holds it give the same result; the nil
  pointer of a struct type gives the result of the zero value of that type.
\<close>

theorem fields_through_pointer:
  "fields (VPointer (VStruct ds vs)) names = fields (VStruct ds vs) names \<and>
   fields (VInterface (VStruct ds vs)) names = fields (VStruct ds vs) names \<and>
   fields (VNilPointer (TStruct ds)) names = fields (Zero (TStruct ds)) names"
  by (simp add: fields_unfold valueOf_def valueOf_loop.simps)

section \<open>The keys of an annotation\<close>

text \<open>
  The key \<open>readonly\<close> sets the ReadOnly attribute: true exactly for the value \<open>true\<close>.
\<close>

theorem applyTags_readonly:
  "ReadOnly (applyTags f tags) =
     (case mapGet tags ''readonly'' of None \<Rightarrow> ReadOnly f | Some v \<Rightarrow> v = ''true'')"
  by (simp add: applyTags_def Let_def split: option.splits)

text \<open>
  A key that is none of the eight keys \<open>applyTags\<close> reads changes nothing; \<open>options\<close> is
  such a key.
\<close>

theorem applyTags_unknown_key:
  assumes "k \<notin> set [''name'', ''label'', ''placeholder'', ''type'', ''id'', ''footer'',
                     ''class'', ''readonly'']"
  shows "applyTags f (Some (m(k \<mapsto> v))) = applyTags f (Some m)"
proof -
  have eq: "mapGet (Some (m(k \<mapsto> v))) key = mapGet (Some m) key" if "key \<noteq> k" for key
    using that by (simp add: mapGet_def)
  from assms have n: "''name'' \<noteq> k" "''label'' \<noteq> k" "''placeholder'' \<noteq> k"
    "''type'' \<noteq> k" "''id'' \<noteq> k" "''footer'' \<noteq> k" "''class'' \<noteq> k" "''readonly'' \<noteq> k"
    by auto
  note e = eq [OF n(1)] eq [OF n(2)] eq [OF n(3)] eq [OF n(4)] eq [OF n(5)] eq [OF n(6)]
    eq [OF n(7)] eq [OF n(8)]
  show ?thesis unfolding applyTags_def by (simp only: e)
qed

theorem applyTags_unknown_key_witness:
  "''options'' \<notin> set [''name'', ''label'', ''placeholder'', ''type'', ''id'', ''footer'',
                       ''class'', ''readonly''] \<and>
   applyTags \<lparr>Name = ''Name'', Label = ''Name'', Placeholder = ''Name'', Type = ''text'',
              ID = [], ReadOnly = False, Value = VString [], Footer = [], Class = []\<rparr>
     (Some (Map.empty(''options'' \<mapsto> ''readonly,required'')))
   = applyTags \<lparr>Name = ''Name'', Label = ''Name'', Placeholder = ''Name'', Type = ''text'',
              ID = [], ReadOnly = False, Value = VString [], Footer = [], Class = []\<rparr>
     (Some Map.empty)"
proof -
  have h: "''options'' \<notin> set [''name'', ''label'', ''placeholder'', ''type'', ''id'',
      ''footer'', ''class'', ''readonly'']"
    by simp
  from h applyTags_unknown_key [OF h] show ?thesis by blast
qed

end
